theory Spec2Isabelle
  imports Main "HOL-Library.Word" "HOL-Library.Sublist"
begin

unbundle bit_operations_syntax

section \<open>Bytes, panics and library calls\<close>

text \<open>
  A Go \<^verbatim>\<open>[]byte\<close> is a list of 8-bit characters. A run-time panic of the program
  (index out of range, slice bounds out of range, integer division by zero) is the left
  summand of a result.
\<close>

type_synonym byte = char

datatype panic = IndexOutOfRange | SliceBounds | DivideByZero

abbreviation NUL :: byte where "NUL \<equiv> CHR 0x00"
abbreviation LF :: byte where "LF \<equiv> CHR 0x0A"
abbreviation SP :: byte where "SP \<equiv> CHR '' ''"

text \<open>\<^verbatim>\<open>fmt.Sprintf("%d", n)\<close> for the non-negative \<^verbatim>\<open>len(obj)\<close>.\<close>

fun decimal :: "nat \<Rightarrow> byte list" where
  "decimal n = (if n < 10 then [''0123456789'' ! n]
                else decimal (n div 10) @ [''0123456789'' ! (n mod 10)])"

declare decimal.simps [simp del]

text \<open>\<^verbatim>\<open>bytes.IndexByte\<close>: the index of the first \<open>c\<close>, or \<open>-1\<close>.\<close>

primrec IndexByte :: "byte list \<Rightarrow> byte \<Rightarrow> int" where
  "IndexByte [] c = -1"
| "IndexByte (x # xs) c =
     (if x = c then 0 else (let r = IndexByte xs c in if r < 0 then -1 else r + 1))"

text \<open>\<^verbatim>\<open>bytes.Index\<close>: the index of the first occurrence of \<open>sep\<close>, or \<open>-1\<close>.\<close>

primrec Index :: "byte list \<Rightarrow> byte list \<Rightarrow> int" where
  "Index [] sep = (if sep = [] then 0 else -1)"
| "Index (x # xs) sep =
     (if prefix sep (x # xs) then 0
      else (let r = Index xs sep in if r < 0 then -1 else r + 1))"

definition Contains :: "byte list \<Rightarrow> byte list \<Rightarrow> bool" where
  "Contains s sep = (0 \<le> Index s sep)"

section \<open>Configuration\<close>

text \<open>The flags \<^verbatim>\<open>-nonce-name\<close> and \<^verbatim>\<open>-nonce-chars\<close>.\<close>

record config =
  nonceName :: "byte list"
  nonceChars :: "byte list"

definition default_config :: config where
  "default_config = \<lparr>nonceName = ''nonce'', nonceChars = ''0123456789''\<rparr>"

section \<open>The enumerator\<close>

text \<open>
  \<^verbatim>\<open>explore\<close> increments a Go \<^verbatim>\<open>int\<close> (a two's complement word of the platform's
  width), sends it, and leaves the loop after sending \<open>0\<close>. \<open>explore_from t\<close> is the
  list of values sent, in order, from counter \<open>t\<close> until the queue is closed.
\<close>

function explore_from :: "'a::len word \<Rightarrow> 'a word list" where
  "explore_from t = (let t' = t + 1 in if t' = 0 then [t'] else t' # explore_from t')"
  by pat_completeness auto
termination
proof (relation "measure (\<lambda>t. 2 ^ LENGTH('a) - unat t)")
  show "wf (measure (\<lambda>t::'a word. 2 ^ LENGTH('a) - unat t))" by simp
next
  fix t t' :: "'a word"
  assume "t' = t + 1" and "t' \<noteq> 0"
  then have "t + 1 \<noteq> 0" by simp
  then have "unat (t + 1) = Suc (unat t)"
    using unatSuc [of t] by (simp add: add.commute)
  moreover have "unat (t + 1) < 2 ^ LENGTH('a)" by (rule unsigned_less)
  ultimately show "(t', t) \<in> measure (\<lambda>t::'a word. 2 ^ LENGTH('a) - unat t)"
    using \<open>t' = t + 1\<close> by simp
qed

declare explore_from.simps [simp del]

definition explore :: "'a::len word list" where
  "explore = explore_from 0"

section \<open>Hexadecimal rendering in place\<close>

text \<open>
  A slice is its backing array from the slice's start to its capacity, and its length.
\<close>

record slice =
  arr :: "byte list"
  len :: nat

definition cap :: "slice \<Rightarrow> nat" where
  "cap v = length (arr v)"

definition bytes_of :: "slice \<Rightarrow> byte list" where
  "bytes_of v = take (len v) (arr v)"

definition hexdigits :: "byte list" where
  "hexdigits = ''0123456789abcdef''"

text \<open>The loop of \<^verbatim>\<open>hexInPlace\<close>, with \<open>Suc i\<close> iterations left: it handles index \<open>i\<close>.\<close>

primrec hex_loop :: "byte list \<Rightarrow> nat \<Rightarrow> byte list" where
  "hex_loop h 0 = h"
| "hex_loop h (Suc i) =
     (let b = (of_char (h ! i) :: 8 word)
      in hex_loop (h[i * 2 + 0 := hexdigits ! unat (drop_bit 4 b),
                     i * 2 + 1 := hexdigits ! unat (b AND 0xf)]) i)"

definition hexInPlace :: "slice \<Rightarrow> panic + slice" where
  "hexInPlace v =
     (if cap v < len v * 2 then Inl SliceBounds
      else Inr \<lparr>arr = hex_loop (arr v) (len v), len = len v * 2\<rparr>)"

text \<open>
  \<^verbatim>\<open>append(b, d...)\<close>, as \<^verbatim>\<open>s1.Sum(b)\<close> does with the digest: within the capacity the
  backing array is written in place; beyond it a new array is allocated, of which only
  the needed part is modelled (Go may give it spare capacity).
\<close>

definition append_slice :: "slice \<Rightarrow> byte list \<Rightarrow> slice" where
  "append_slice b d =
     (if len b + length d \<le> cap b
      then \<lparr>arr = take (len b) (arr b) @ d @ drop (len b + length d) (arr b),
            len = len b + length d\<rparr>
      else \<lparr>arr = take (len b) (arr b) @ d, len = len b + length d\<rparr>)"

text \<open>\<^verbatim>\<open>sha1.Size\<close>, and \<^verbatim>\<open>hexBuf := make([]byte, 0, sha1.Size*2)\<close>.\<close>

definition sha1_Size :: nat where
  "sha1_Size = 20"

definition make_hexBuf :: slice where
  "make_hexBuf = \<lparr>arr = replicate (sha1_Size * 2) NUL, len = 0\<rparr>"

section \<open>The object header and the nonce field\<close>

definition fixHeader :: "byte list \<Rightarrow> byte list" where
  "fixHeader obj =
     (let obj' = drop (nat (IndexByte obj NUL + 1)) obj
      in ''commit '' @ decimal (length obj') @ [NUL] @ obj')"

definition nonceHeader :: "config \<Rightarrow> byte list" where
  "nonceHeader cfg = [LF] @ nonceName cfg @ [SP]"

text \<open>
  The scan \<^verbatim>\<open>for obj[i+1] != '\n' { i++ }\<close> of \<^verbatim>\<open>addOrFindNonce\<close>; reading past the
  buffer panics.
\<close>

function scan_line :: "byte list \<Rightarrow> int \<Rightarrow> panic + int" where
  "scan_line obj i =
     (if i + 1 < 0 \<or> int (length obj) \<le> i + 1 then Inl IndexOutOfRange
      else if obj ! nat (i + 1) \<noteq> LF then scan_line obj (i + 1)
      else Inr i)"
  by pat_completeness auto
termination
  by (relation "measure (\<lambda>(obj, i). nat (int (length obj) - i))") auto

declare scan_line.simps [simp del]

definition addOrFindNonce :: "config \<Rightarrow> byte list \<Rightarrow> panic + (byte list \<times> int)" where
  "addOrFindNonce cfg obj =
     (if \<not> Contains obj (nonceHeader cfg) then
        (let i = Index obj [LF, LF] in
         if i < 0 then Inl SliceBounds
         else
           (let header = take (nat i) obj;
                footer = drop (nat i) obj;
                obj' = fixHeader (header @ nonceHeader cfg @ footer)
            in case scan_line obj' (Index obj' (nonceHeader cfg)) of
                 Inl e \<Rightarrow> Inl e
               | Inr j \<Rightarrow> Inr (obj', j)))
      else
        (case scan_line obj (Index obj (nonceHeader cfg)) of
           Inl e \<Rightarrow> Inl e
         | Inr j \<Rightarrow> Inr (obj, j)))"

definition growNonce :: "config \<Rightarrow> byte list \<Rightarrow> panic + byte list" where
  "growNonce cfg obj =
     (let i = Index obj (nonceHeader cfg) + int (length (nonceHeader cfg)) in
      if int (length obj) < i then Inl SliceBounds
      else Inr (fixHeader (take (nat i) obj @ ''0'' @ drop (nat i) obj)))"

section \<open>Rendering a candidate\<close>

text \<open>
  One pass of the digit loop of \<^verbatim>\<open>bruteForce\<close>, from cursor \<open>i\<close> leftwards. It ends with
  the candidate written (\<open>Written\<close>) or at a space with digits left over (\<open>Collided\<close>);
  the buffer carries the digits written so far in both cases.
\<close>

datatype pass = Written "byte list" | Collided "byte list"

function writeDigits :: "config \<Rightarrow> byte list \<Rightarrow> int \<Rightarrow> int \<Rightarrow> panic + pass" where
  "writeDigits cfg obj i nonce =
     (if 0 < nonce then
        if i < 0 \<or> int (length obj) \<le> i then Inl IndexOutOfRange
        else if obj ! nat i = SP then Inr (Collided obj)
        else if length (nonceChars cfg) = 0 then Inl DivideByZero
        else writeDigits cfg
               (obj[nat i := nonceChars cfg ! nat (nonce mod int (length (nonceChars cfg)))])
               (i - 1) (nonce div int (length (nonceChars cfg)))
      else Inr (Written obj))"
  by pat_completeness auto
termination
  by (relation "measure (\<lambda>(cfg, obj, i, nonce). nat (i + 1))") auto

declare writeDigits.simps [simp del]

text \<open>
  The \<^verbatim>\<open>writeNonce\<close> label: a pass that collides grows the field, advances
  \<^verbatim>\<open>nonceIdx\<close> by one and starts over. The result is the buffer and \<^verbatim>\<open>nonceIdx\<close> at the
  loop's exit; \<open>None\<close> is a loop that never exits.
\<close>

partial_function (option) writeNonce ::
  "config \<Rightarrow> byte list \<Rightarrow> int \<Rightarrow> int \<Rightarrow> (panic + (byte list \<times> int)) option" where
  "writeNonce cfg obj nonceIdx t =
     (case writeDigits cfg obj nonceIdx t of
        Inl e \<Rightarrow> Some (Inl e)
      | Inr (Written obj') \<Rightarrow> Some (Inr (obj', nonceIdx))
      | Inr (Collided obj') \<Rightarrow>
          (case growNonce cfg obj' of
             Inl e \<Rightarrow> Some (Inl e)
           | Inr obj'' \<Rightarrow> writeNonce cfg obj'' (nonceIdx + 1) t))"

declare writeNonce.simps [code]

section \<open>The pattern\<close>

text \<open>
  The compiled \<^verbatim>\<open>*regexp.Regexp\<close> is modelled by its syntax tree, for the constructs
  the program's patterns are built from: literal bytes, byte classes, the
  beginning-of-text anchor \<^verbatim>\<open>^\<close>, concatenation, alternation and iteration.
  \<open>ends r s i\<close> lists the offsets at which a match of \<open>r\<close> that begins at offset
  \<open>i\<close> of \<open>s\<close> can end.
\<close>

datatype regex =
    Eps
  | Chr byte
  | Class "byte list"
  | Bol
  | Seq regex regex
  | Alt regex regex
  | Star regex

primrec closure :: "(nat \<Rightarrow> nat list) \<Rightarrow> nat \<Rightarrow> nat list \<Rightarrow> nat list" where
  "closure f 0 ps = ps"
| "closure f (Suc k) ps = closure f k (remdups (ps @ concat (map f ps)))"

primrec ends :: "regex \<Rightarrow> byte list \<Rightarrow> nat \<Rightarrow> nat list" where
  "ends Eps s i = [i]"
| "ends (Chr c) s i = (if i < length s \<and> s ! i = c then [i + 1] else [])"
| "ends (Class cs) s i = (if i < length s \<and> s ! i \<in> set cs then [i + 1] else [])"
| "ends Bol s i = (if i = 0 then [i] else [])"
| "ends (Seq r1 r2) s i = concat (map (ends r2 s) (ends r1 s i))"
| "ends (Alt r1 r2) s i = ends r1 s i @ ends r2 s i"
| "ends (Star r) s i = closure (ends r s) (length s) [i]"

text \<open>
  \<^verbatim>\<open>re.Match(b)\<close> reports whether \<open>b\<close> contains any match of the pattern: the match
  may begin at any offset.
\<close>

definition re_Match :: "regex \<Rightarrow> byte list \<Rightarrow> bool" where
  "re_Match re b = list_ex (\<lambda>i. ends re b i \<noteq> []) [0 ..< length b + 1]"

text \<open>The pattern as a rule anchored at the start of the text: a match beginning at offset 0.\<close>

definition matches_at_start :: "regex \<Rightarrow> byte list \<Rightarrow> bool" where
  "matches_at_start re b = (ends re b 0 \<noteq> [])"

primrec times :: "regex \<Rightarrow> nat \<Rightarrow> regex" where
  "times r 0 = Eps"
| "times r (Suc n) = Seq r (times r n)"

text \<open>The default of the flag \<^verbatim>\<open>-pattern\<close>, \<^verbatim>\<open>^[01]{7}\<close>.\<close>

definition default_pattern :: regex where
  "default_pattern = Seq Bol (times (Class ''01'') 7)"

section \<open>The search worker\<close>

text \<open>
  The test of one candidate, \<^verbatim>\<open>re.Match(hexInPlace(s1.Sum(hexBuf[:0])))\<close>, on the digest
  \<open>d\<close> that \<^verbatim>\<open>s1.Sum\<close> appends: the hexadecimal slice it is applied to, or the panic.
\<close>

definition hex_of_sum :: "slice \<Rightarrow> byte list \<Rightarrow> panic + slice" where
  "hex_of_sum hexBuf d = hexInPlace (append_slice (hexBuf\<lparr>len := 0\<rparr>) d)"

text \<open>
  How a worker ends: it sent its buffer on \<^verbatim>\<open>winner\<close>, it saw \<^verbatim>\<open>done\<close> closed, the queue
  was closed and drained, it panicked, or it never left the \<^verbatim>\<open>writeNonce\<close> loop.
\<close>

datatype outcome =
    Published "byte list"
  | Cancelled
  | Drained
  | Panicked panic
  | Hung

text \<open>
  The loop \<^verbatim>\<open>for t := range possibilities\<close>. A worker's input is the list of candidates
  it received, each with what the \<^verbatim>\<open>select\<close> on \<^verbatim>\<open>done\<close> found at that moment; \<open>sha1sum\<close>
  is the digest \<^verbatim>\<open>s1.Sum\<close> computes of the bytes written since \<^verbatim>\<open>s1.Reset\<close>. The result is
  the list of buffers hashed, in order, and the outcome.
\<close>

fun search_loop ::
  "config \<Rightarrow> (byte list \<Rightarrow> byte list) \<Rightarrow> regex \<Rightarrow> byte list \<Rightarrow> int \<Rightarrow> slice \<Rightarrow>
   (bool \<times> int) list \<Rightarrow> byte list list \<times> outcome" where
  "search_loop cfg sha1sum re obj nonceIdx hexBuf [] = ([], Drained)"
| "search_loop cfg sha1sum re obj nonceIdx hexBuf ((done, t) # possibilities) =
     (if done then ([], Cancelled)
      else
        (case writeNonce cfg obj nonceIdx t of
           None \<Rightarrow> ([], Hung)
         | Some (Inl e) \<Rightarrow> ([], Panicked e)
         | Some (Inr (obj', nonceIdx')) \<Rightarrow>
             (case hex_of_sum hexBuf (sha1sum obj') of
                Inl e \<Rightarrow> ([obj'], Panicked e)
              | Inr h \<Rightarrow>
                  if \<not> re_Match re (bytes_of h) then
                    (let hexBuf' = (if length (sha1sum obj') \<le> cap hexBuf
                                    then hexBuf\<lparr>arr := arr h\<rparr> else hexBuf);
                         (hs, r) = search_loop cfg sha1sum re obj' nonceIdx' hexBuf' possibilities
                     in (obj' # hs, r))
                  else ([obj'], Published obj'))))"

definition bruteForce ::
  "config \<Rightarrow> (byte list \<Rightarrow> byte list) \<Rightarrow> regex \<Rightarrow> byte list \<Rightarrow> (bool \<times> int) list \<Rightarrow>
   byte list list \<times> outcome" where
  "bruteForce cfg sha1sum re obj possibilities =
     (case addOrFindNonce cfg obj of
        Inl e \<Rightarrow> ([], Panicked e)
      | Inr (obj', nonceIdx) \<Rightarrow>
          search_loop cfg sha1sum re obj' nonceIdx make_hexBuf possibilities)"

section \<open>The pool\<close>

text \<open>
  \<^verbatim>\<open>w := <-winner\<close> in \<^verbatim>\<open>main\<close>: the buffer of the first worker that sends, the workers
  listed in the order in which they end. \<open>None\<close> is a receive that never returns: no
  worker sends.
\<close>

definition receive_winner :: "outcome list \<Rightarrow> byte list option" where
  "receive_winner outs =
     (case List.find (\<lambda>out. case out of Published w \<Rightarrow> True | _ \<Rightarrow> False) outs of
        Some (Published w) \<Rightarrow> Some w
      | _ \<Rightarrow> None)"

text \<open>
  The search of \<^verbatim>\<open>main\<close> on the object \<open>raw\<close> read from git: every worker runs on its
  own copy of \<^verbatim>\<open>fixHeader(obj)\<close>, on the candidates the queue handed to it.
\<close>

definition main_search ::
  "config \<Rightarrow> (byte list \<Rightarrow> byte list) \<Rightarrow> regex \<Rightarrow> byte list \<Rightarrow> (bool \<times> int) list list \<Rightarrow>
   byte list option" where
  "main_search cfg sha1sum re raw shares =
     receive_winner (map (\<lambda>ps. snd (bruteForce cfg sha1sum re (fixHeader raw) ps)) shares)"

section \<open>Reference definitions\<close>

text \<open>
  The lowercase hexadecimal encoding of a byte string, two digits per byte, high nibble
  first.
\<close>

definition hex_encode :: "byte list \<Rightarrow> byte list" where
  "hex_encode bs =
     concat (map (\<lambda>b. [hexdigits ! (of_char b div 16), hexdigits ! (of_char b mod 16)]) bs)"

section \<open>Sample data\<close>

text \<open>
  The programme's search is stated for every digest function; where a run is evaluated on
  a concrete object the byte-sum checksum below, repeated to \<^verbatim>\<open>sha1.Size\<close> bytes,
  stands in for it.
\<close>

definition checksum_sum :: "byte list \<Rightarrow> byte list" where
  "checksum_sum b = replicate sha1_Size (char_of (sum_list (map of_char b) :: nat))"

text \<open>A commit as \<^verbatim>\<open>git cat-file -p HEAD\<close> prints it.\<close>

definition sample_commit :: "byte list" where
  "sample_commit =
     ''tree 4b825dc642cb6eb9a060e54bf8d69288fbee4904'' @ [LF] @
     ''author a <a> 1 +0000'' @ [LF] @
     ''committer a <a> 1 +0000'' @ [LF, LF] @
     ''msg'' @ [LF]"

text \<open>The same commit with the nonce field holding \<open>v\<close>, under its header.\<close>

definition sample_object :: "byte list \<Rightarrow> byte list" where
  "sample_object v =
     fixHeader
      (''tree 4b825dc642cb6eb9a060e54bf8d69288fbee4904'' @ [LF] @
       ''author a <a> 1 +0000'' @ [LF] @
       ''committer a <a> 1 +0000'' @ [LF] @
       ''nonce '' @ v @ [LF, LF] @
       ''msg'' @ [LF])"

chapter \<open>Properties\<close>

section \<open>Hexadecimal rendering\<close>

lemma unat_of_char: "unat (of_char b :: 8 word) = of_char b"
proof -
  have "(of_char b :: 8 word) = of_nat (of_char b)"
    by (rule of_nat_of_char [symmetric])
  then have "unat (of_char b :: 8 word) = (of_char b :: nat) mod 2 ^ LENGTH(8)"
    by (simp only: unat_of_nat)
  then show ?thesis by simp
qed

lemma hi_nibble: "unat (drop_bit 4 (of_char b :: 8 word)) = of_char b div 16"
  by (simp add: drop_bit_eq_div unat_div unat_of_char)

lemma lo_nibble: "unat ((of_char b :: 8 word) AND 0xf) = of_char b mod 16"
proof -
  have "(0xf :: 8 word) = mask 4" by (simp add: mask_eq_exp_minus_1)
  then have "(of_char b :: 8 word) AND 0xf = take_bit 4 (of_char b :: 8 word)"
    by (simp add: take_bit_eq_mask)
  also have "\<dots> = (of_char b :: 8 word) mod 16"
    by (simp add: take_bit_eq_mod)
  finally show ?thesis
    by (simp add: unat_mod unat_of_char)
qed

lemma hex_encode_snoc: "hex_encode (bs @ [b]) = hex_encode bs @ [hexdigits ! (of_char b div 16), hexdigits ! (of_char b mod 16)]"
  by (simp add: hex_encode_def)

lemma length_hex_encode: "length (hex_encode bs) = 2 * length bs"
  by (induction bs) (simp_all add: hex_encode_def)

lemma hex_loop_eq:
  "2 * i \<le> length h \<Longrightarrow> hex_loop h i = hex_encode (take i h) @ drop (2 * i) h"
proof (induction i arbitrary: h)
  case 0
  then show ?case by (simp add: hex_encode_def)
next
  case (Suc i)
  let ?x = "hexdigits ! (of_char (h ! i) div 16)"
  let ?y = "hexdigits ! (of_char (h ! i) mod 16)"
  let ?h' = "h[i * 2 + 0 := ?x, i * 2 + 1 := ?y]"
  from Suc.prems have il: "i < length h" and l2: "2 * i + 2 \<le> length h" by simp_all
  have step: "hex_loop h (Suc i) = hex_loop ?h' i"
    by (simp add: hi_nibble lo_nibble Let_def)
  have tk: "take i ?h' = take i h" by simp
  have dr: "drop (2 * i) ?h' = ?x # ?y # drop (2 * i + 2) h"
  proof -
    have "drop (2 * i) ?h' = (drop (2 * i) h)[0 := ?x, 1 := ?y]"
      by (simp add: drop_update_swap mult.commute)
    moreover from l2 obtain a b r where "drop (2 * i) h = a # b # r"
      by (metis Suc_le_lessD add_2_eq_Suc' Cons_nth_drop_Suc Suc_lessD)
    moreover from this have "drop (2 * i + 2) h = r"
      by (metis add.commute drop_drop drop_Suc_Cons drop0 numeral_2_eq_2)
    ultimately show ?thesis by simp
  qed
  have "hex_loop ?h' i = hex_encode (take i ?h') @ drop (2 * i) ?h'"
    using Suc.prems by (intro Suc.IH) simp
  with step tk dr have "hex_loop h (Suc i) = hex_encode (take i h) @ ?x # ?y # drop (2 * i + 2) h"
    by simp
  moreover have "take (Suc i) h = take i h @ [h ! i]"
    using il by (simp add: take_Suc_conv_app_nth)
  ultimately show ?case by (simp add: hex_encode_snoc)
qed


lemma hexInPlace_eq:
  fixes v :: slice
  assumes "len v * 2 \<le> cap v"
  shows "hexInPlace v =
         Inr \<lparr>arr = hex_encode (bytes_of v) @ drop (len v * 2) (arr v), len = len v * 2\<rparr>"
  using assms hex_loop_eq [of "len v" "arr v"]
  by (simp add: hexInPlace_def cap_def bytes_of_def mult.commute)

lemma hex_of_sum_eq:
  fixes hexBuf :: slice
  assumes "length d * 2 \<le> cap hexBuf"
  shows "hex_of_sum hexBuf d =
         Inr \<lparr>arr = hex_encode d @ drop (length d * 2) (arr hexBuf), len = length d * 2\<rparr>"
proof -
  let ?b = "append_slice (hexBuf\<lparr>len := 0\<rparr>) d"
  from assms have b: "?b = \<lparr>arr = d @ drop (length d) (arr hexBuf), len = length d\<rparr>"
    by (simp add: append_slice_def cap_def)
  have "len ?b * 2 \<le> cap ?b"
    using assms by (simp add: b cap_def)
  then have "hexInPlace ?b =
      Inr \<lparr>arr = hex_encode (bytes_of ?b) @ drop (len ?b * 2) (arr ?b), len = len ?b * 2\<rparr>"
    by (rule hexInPlace_eq)
  moreover have "bytes_of ?b = d" by (simp add: b bytes_of_def)
  moreover have "drop (len ?b * 2) (arr ?b) = drop (length d * 2) (arr hexBuf)"
    by (simp add: b mult_2_right)
  ultimately show ?thesis by (simp add: hex_of_sum_def b)
qed

text \<open>
  C10. For a slice \<open>v\<close> of length \<open>n\<close> whose capacity is at least \<open>2n\<close>, \<^verbatim>\<open>hexInPlace\<close>
  returns the slice of length \<open>2n\<close> over the same array that holds the lowercase
  hexadecimal encoding of the \<open>n\<close> bytes \<open>v\<close> held, although the output overwrites
  the input; the bytes beyond \<open>2n\<close> are untouched. At the call site the buffer has
  capacity \<open>2 * sha1.Size\<close> and the digest has \<open>sha1.Size\<close> bytes, so the test is applied
  to the encoding of the digest.
\<close>

theorem hexInPlace_encodes:
  fixes v hexBuf :: slice
  shows "(len v * 2 \<le> cap v \<longrightarrow>
            hexInPlace v =
            Inr \<lparr>arr = hex_encode (bytes_of v) @ drop (len v * 2) (arr v), len = len v * 2\<rparr>)
       \<and> (cap hexBuf = sha1_Size * 2 \<and> length d = sha1_Size \<longrightarrow>
            (\<exists>h. hex_of_sum hexBuf d = Inr h \<and> bytes_of h = hex_encode d))
       \<and> cap make_hexBuf = sha1_Size * 2"
proof (intro conjI impI)
  assume "len v * 2 \<le> cap v"
  then show "hexInPlace v =
      Inr \<lparr>arr = hex_encode (bytes_of v) @ drop (len v * 2) (arr v), len = len v * 2\<rparr>"
    by (rule hexInPlace_eq)
next
  assume a: "cap hexBuf = sha1_Size * 2 \<and> length d = sha1_Size"
  then have "length d * 2 \<le> cap hexBuf" by simp
  from hex_of_sum_eq [OF this]
  show "\<exists>h. hex_of_sum hexBuf d = Inr h \<and> bytes_of h = hex_encode d"
    by (simp add: bytes_of_def length_hex_encode)
next
  show "cap make_hexBuf = sha1_Size * 2"
    by (simp add: cap_def make_hexBuf_def)
qed

theorem hexInPlace_encodes_witness:
  "hexInPlace \<lparr>arr = [CHR 0xDA, CHR 0x39, NUL, NUL], len = 2\<rparr> = Inr \<lparr>arr = ''da39'', len = 4\<rparr>
   \<and> (\<exists>h. hex_of_sum make_hexBuf (replicate 20 (CHR 0xA5)) = Inr h
          \<and> bytes_of h = concat (replicate 20 ''a5''))"
  using hexInPlace_encodes [of "\<lparr>arr = [CHR 0xDA, CHR 0x39, NUL, NUL], len = 2\<rparr>"
                               make_hexBuf "replicate 20 (CHR 0xA5)"]
  apply (simp add: cap_def bytes_of_def hex_encode_def hexdigits_def make_hexBuf_def sha1_Size_def)
  done

section \<open>The published buffer\<close>

lemma hex_of_sum_Inr:
  fixes hexBuf :: slice
  assumes "hex_of_sum hexBuf d = Inr h"
  shows "bytes_of h = hex_encode d"
proof (cases "length d * 2 \<le> cap hexBuf")
  case True
  from hex_of_sum_eq [OF True] assms show ?thesis
    by (auto simp: bytes_of_def length_hex_encode)
next
  case False
  show ?thesis
  proof (cases "length d \<le> cap hexBuf")
    case True
    then have "append_slice (hexBuf\<lparr>len := 0\<rparr>) d
               = \<lparr>arr = d @ drop (length d) (arr hexBuf), len = length d\<rparr>"
      by (simp add: append_slice_def cap_def)
    with False True assms show ?thesis
      by (simp add: hex_of_sum_def hexInPlace_def cap_def)
  next
    case False
    then have "append_slice (hexBuf\<lparr>len := 0\<rparr>) d = \<lparr>arr = d, len = length d\<rparr>"
      by (simp add: append_slice_def cap_def)
    moreover from False have "d \<noteq> []" by auto
    ultimately show ?thesis
      using assms by (simp add: hex_of_sum_def hexInPlace_def cap_def)
  qed
qed

lemma search_loop_Published:
  "search_loop cfg sha1sum re obj nonceIdx hexBuf ps = (hs, Published w) \<Longrightarrow>
   re_Match re (hex_encode (sha1sum w)) \<and> hs \<noteq> [] \<and> last hs = w"
proof (induction ps arbitrary: obj nonceIdx hexBuf hs)
  case Nil
  then show ?case by simp
next
  case (Cons p ps)
  obtain dn t where p: "p = (dn, t)" by (cases p)
  from Cons.prems p have nd: "\<not> dn" by (auto split: if_splits)
  from Cons.prems p nd obtain obj' idx' where
    w: "writeNonce cfg obj nonceIdx t = Some (Inr (obj', idx'))"
    by (auto split: option.splits sum.splits)
  from Cons.prems p nd w obtain h where
    h: "hex_of_sum hexBuf (sha1sum obj') = Inr h"
    by (auto split: sum.splits)
  have hb: "bytes_of h = hex_encode (sha1sum obj')"
    using h by (rule hex_of_sum_Inr)
  show ?case
  proof (cases "re_Match re (bytes_of h)")
    case True
    with Cons.prems p nd w h hb show ?thesis by auto
  next
    case False
    let ?hexBuf' = "if length (sha1sum obj') \<le> cap hexBuf then hexBuf\<lparr>arr := arr h\<rparr> else hexBuf"
    obtain hs' r where r: "search_loop cfg sha1sum re obj' idx' ?hexBuf' ps = (hs', r)"
      by (cases "search_loop cfg sha1sum re obj' idx' ?hexBuf' ps")
    with Cons.prems p nd w h False have "hs = obj' # hs'" and "r = Published w"
      by (simp_all add: Let_def)
    with r Cons.IH [of obj' idx' ?hexBuf' hs'] show ?thesis by simp
  qed
qed

lemma receive_winner_Some:
  assumes "receive_winner outs = Some w"
  shows "Published w \<in> set outs"
proof -
  from assms have "List.find (\<lambda>out. case out of Published w \<Rightarrow> True | _ \<Rightarrow> False) outs
             = Some (Published w)"
    by (auto simp: receive_winner_def split: option.splits outcome.splits)
  then obtain i where "i < length outs" and "outs ! i = Published w"
    by (auto simp: find_Some_iff)
  then show ?thesis by (metis nth_mem)
qed

text \<open>
  C1. A worker that publishes a buffer has just hashed that very buffer, and the lowercase
  hexadecimal rendering of its digest matches the pattern; so the buffer \<^verbatim>\<open>main\<close>
  receives from a pool of any size has a matching digest as well.
\<close>

theorem published_buffer_matches:
  "(snd (bruteForce cfg sha1sum re obj ps) = Published w \<longrightarrow>
      re_Match re (hex_encode (sha1sum w)) \<and> last (fst (bruteForce cfg sha1sum re obj ps)) = w)
   \<and> (main_search cfg sha1sum re raw shares = Some w' \<longrightarrow>
      re_Match re (hex_encode (sha1sum w')))"
proof -
  have worker: "re_Match re (hex_encode (sha1sum b)) \<and> last (fst (bruteForce cfg sha1sum re o' qs)) = b"
    if "snd (bruteForce cfg sha1sum re o' qs) = Published b" for o' qs b
  proof -
    from that obtain o'' idx where
      a: "addOrFindNonce cfg o' = Inr (o'', idx)"
      by (auto simp: bruteForce_def split: sum.splits)
    obtain hs r where s: "search_loop cfg sha1sum re o'' idx make_hexBuf qs = (hs, r)"
      by (cases "search_loop cfg sha1sum re o'' idx make_hexBuf qs")
    with that a have "r = Published b" by (simp add: bruteForce_def)
    with s search_loop_Published [of cfg sha1sum re o'' idx make_hexBuf qs hs b] a
    show ?thesis by (simp add: bruteForce_def)
  qed
  have pool: "re_Match re (hex_encode (sha1sum w'))"
    if "main_search cfg sha1sum re raw shares = Some w'"
  proof -
    from that
    have "Published w' \<in> set (map (\<lambda>ps. snd (bruteForce cfg sha1sum re (fixHeader raw) ps)) shares)"
      unfolding main_search_def by (rule receive_winner_Some)
    then obtain qs where "snd (bruteForce cfg sha1sum re (fixHeader raw) qs) = Published w'"
      by auto
    then show ?thesis
      using worker by blast
  qed
  from worker [of obj ps w] pool show ?thesis by blast
qed

end
